theory Spec2Isabelle
  imports Complex_Main "HOL-Library.Char_ord" "HOL-Library.List_Lexorder" "HOL-Library.Product_Lexorder"
    "HOL-Library.Multiset" "HOL-Library.Sublist"
begin

section \<open>Diagram planner\<close>

text \<open>
  \<^verbatim>\<open>_suggest_diagram_counts(total)\<close> of \<^verbatim>\<open>orchestrate_mapping.py\<close>
  (and, with the same body, of \<^verbatim>\<open>scene_outline.py\<close>). Python's \<^verbatim>\<open>//\<close> is floor
  division, as \<open>div\<close> on \<open>int\<close> is; \<^verbatim>\<open>x if total else 0\<close> tests \<^verbatim>\<open>total != 0\<close>.
\<close>

record diagram_suggestion =
  diagramCount :: int
  targetNodesPerDiagram :: int

definition suggest_diagram_counts :: "int \<Rightarrow> diagram_suggestion" where
  "suggest_diagram_counts total_count =
     (let count = (if total_count \<le> 80 then 1
                   else if total_count \<le> 200 then 2
                   else if total_count \<le> 400 then 3
                   else 4);
          target = max 30 (min 150 (if total_count \<noteq> 0 then total_count div max count 1 else 0))
      in \<lparr> diagramCount = count, targetNodesPerDiagram = target \<rparr>)"


section \<open>Properties of the diagram planner\<close>

text \<open>
  Claim C1, as the code has it: for a positive total the target is the quotient
  \<open>total div diagramCount\<close> clamped into \<open>[30, 150]\<close>; for a total of zero the inner
  value \<open>0\<close> is clamped as well, so the target is \<open>30\<close>.
\<close>

theorem suggest_target_clamped:
  "(0 < t \<longrightarrow> targetNodesPerDiagram (suggest_diagram_counts t) =
       max 30 (min 150 (t div diagramCount (suggest_diagram_counts t))))
   \<and> (t = 0 \<longrightarrow> targetNodesPerDiagram (suggest_diagram_counts t) = 30)"
  by (simp add: suggest_diagram_counts_def Let_def)

theorem suggest_target_clamped_witness:
  "(0::int) < 100 \<and> targetNodesPerDiagram (suggest_diagram_counts 100) = 50
   \<and> targetNodesPerDiagram (suggest_diagram_counts 0) = 30"
  using suggest_target_clamped [of 100] suggest_target_clamped [of 0]
  by (simp add: suggest_diagram_counts_def)

text \<open>
  Claim C1 as the specification words it (target \<open>0\<close> for a total of \<open>0\<close>) fails:
  the planner answers \<open>30\<close> there.
\<close>

theorem suggest_target_zero_counterexample:
  "targetNodesPerDiagram (suggest_diagram_counts 0) \<noteq> 0"
  by (simp add: suggest_diagram_counts_def)

text \<open>
  Claim C5: the diagram counts at the eight threshold totals are 1, 1, 2, 2, 3, 3, 4, 4,
  and for every positive total the target lies in \<open>[30, 150]\<close>.
\<close>

theorem suggest_thresholds:
  "map (\<lambda>t. diagramCount (suggest_diagram_counts t)) [0, 80, 81, 200, 201, 400, 401, 1000]
     = [1, 1, 2, 2, 3, 3, 4, 4]
   \<and> (0 < t \<longrightarrow> 30 \<le> targetNodesPerDiagram (suggest_diagram_counts t)
                 \<and> targetNodesPerDiagram (suggest_diagram_counts t) \<le> 150)"
  by (simp add: suggest_diagram_counts_def Let_def)

theorem suggest_thresholds_witness:
  "(0::int) < 1000 \<and> 30 \<le> targetNodesPerDiagram (suggest_diagram_counts 1000)
   \<and> targetNodesPerDiagram (suggest_diagram_counts 1000) \<le> 150
   \<and> diagramCount (suggest_diagram_counts 1000) = 4"
  using suggest_thresholds [of 1000] by simp

section \<open>Entity records\<close>

record obj_ref =
  hierarchyPath :: "string option"
  globalId :: "string option"
  prefabPath :: "string option"
  name :: "string option"

record entry =
  object :: "obj_ref option"
  activeSelf :: "bool option"
  activeInHierarchy :: "bool option"
  tag :: "string option"
  layer :: "int option"
  isStatic :: "bool option"
  componentTypeNames :: "string list option"
  transform :: "string option"

definition empty_obj :: obj_ref where
  "empty_obj = \<lparr> hierarchyPath = None, globalId = None, prefabPath = None, name = None \<rparr>"

definition obj_of :: "entry \<Rightarrow> obj_ref" where
  "obj_of e = (case object e of None \<Rightarrow> empty_obj | Some obj \<Rightarrow> obj)"

definition truthy :: "string option \<Rightarrow> bool" where
  "truthy v = (case v of None \<Rightarrow> False | Some s \<Rightarrow> s \<noteq> [])"

definition or_empty :: "string option \<Rightarrow> string" where
  "or_empty v = (case v of None \<Rightarrow> [] | Some s \<Rightarrow> s)"

definition has_sep :: "string \<Rightarrow> bool" where
  "has_sep path = (CHR ''/'' \<in> set path)"

definition rsplit_head :: "char \<Rightarrow> string \<Rightarrow> string" where
  "rsplit_head sep s = rev (tl (dropWhile (\<lambda>c. c \<noteq> sep) (rev s)))"

definition rsplit_last :: "char \<Rightarrow> string \<Rightarrow> string" where
  "rsplit_last sep s = rev (takeWhile (\<lambda>c. c \<noteq> sep) (rev s))"

fun dict_set :: "('k \<times> 'v) list \<Rightarrow> 'k \<Rightarrow> 'v \<Rightarrow> ('k \<times> 'v) list" where
  "dict_set [] k v = [(k, v)]"
| "dict_set ((k', v') # d) k v = (if k' = k then (k, v) # d else (k', v') # dict_set d k v)"

definition dict_get :: "('k \<times> 'v) list \<Rightarrow> 'k \<Rightarrow> 'v \<Rightarrow> 'v" where
  "dict_get d k dflt = (case map_of d k of None \<Rightarrow> dflt | Some v \<Rightarrow> v)"

record node_fields =
  n_object :: obj_ref
  n_activeSelf :: "bool option"
  n_activeInHierarchy :: "bool option"
  n_tag :: "string option"
  n_layer :: "int option"
  n_isStatic :: "bool option"
  n_componentTypeNames :: "string list"
  n_transform :: "string option"

datatype node = Node (nfields: node_fields) (children: "node list")

definition new_node :: "entry \<Rightarrow> node_fields" where
  "new_node e = \<lparr> n_object = obj_of e,
      n_activeSelf = activeSelf e,
      n_activeInHierarchy = activeInHierarchy e,
      n_tag = tag e,
      n_layer = layer e,
      n_isStatic = isStatic e,
      n_componentTypeNames = (case componentTypeNames e of None \<Rightarrow> [] | Some cs \<Rightarrow> cs),
      n_transform = transform e \<rparr>"

definition collect_step :: "(string \<times> node_fields) list \<Rightarrow> entry \<Rightarrow> (string \<times> node_fields) list" where
  "collect_step nodes e =
     (let obj = obj_of e; path = hierarchyPath obj
      in if \<not> truthy path then nodes else dict_set nodes (the path) (new_node e))"

definition collect_nodes :: "entry list \<Rightarrow> (string \<times> node_fields) list" where
  "collect_nodes objects = foldl collect_step [] objects"

type_synonym link_state = "(string \<times> node_fields) list \<times> (string \<Rightarrow> (string \<times> node_fields) list)"

definition link_step :: "(string \<times> node_fields) list \<Rightarrow> link_state \<Rightarrow> string \<times> node_fields \<Rightarrow> link_state" where
  "link_step nodes st item =
     (case st of (roots, kids) \<Rightarrow>
      (case item of (path, nd) \<Rightarrow>
        if has_sep path then
          (let parent_path = rsplit_head CHR ''/'' path
           in (case map_of nodes parent_path of
                 Some parent \<Rightarrow> (roots, kids(parent_path := kids parent_path @ [(path, nd)]))
               | None \<Rightarrow> (roots @ [(path, nd)], kids)))
        else (roots @ [(path, nd)], kids)))"

definition link_nodes :: "(string \<times> node_fields) list \<Rightarrow> link_state" where
  "link_nodes nodes = foldl (link_step nodes) ([], \<lambda>_. []) nodes"

lemma length_rsplit_head: "has_sep p \<Longrightarrow> length (rsplit_head CHR ''/'' p) < length p"
proof -
  assume "has_sep p"
  then have "dropWhile (\<lambda>c. c \<noteq> CHR ''/'') (rev p) \<noteq> []"
    by (auto simp: has_sep_def)
  then have "length (tl (dropWhile (\<lambda>c. c \<noteq> CHR ''/'') (rev p))) < length (dropWhile (\<lambda>c. c \<noteq> CHR ''/'') (rev p))"
    by (cases "dropWhile (\<lambda>c. c \<noteq> CHR ''/'') (rev p)") auto
  also have "\<dots> \<le> length (rev p)" by (rule length_dropWhile_le)
  finally show ?thesis by (simp add: rsplit_head_def)
qed

lemma link_step_eq:
  "link_step nodes (rs, kids) (q, nd) =
     (if has_sep q \<and> rsplit_head CHR ''/'' q \<in> fst ` set nodes
      then (rs, kids(rsplit_head CHR ''/'' q := kids (rsplit_head CHR ''/'' q) @ [(q, nd)]))
      else (rs @ [(q, nd)], kids))"
  by (auto simp: link_step_def Let_def map_of_eq_None_iff split: option.split
      dest!: map_of_SomeD intro: rev_image_eqI)

lemma link_fold_kids:
  "snd (foldl (link_step nodes) (rs, kids) items) p =
     kids p @ filter (\<lambda>(q, nd). has_sep q \<and> rsplit_head CHR ''/'' q = p \<and> p \<in> fst ` set nodes) items"
proof (induction items arbitrary: rs kids)
  case Nil
  show ?case by simp
next
  case (Cons it items)
  obtain q nd where it: "it = (q, nd)" by (cases it)
  show ?case
    by (simp add: it link_step_eq Cons.IH)
qed

lemma link_fold_roots:
  "fst (foldl (link_step nodes) (rs, kids) items) =
     rs @ filter (\<lambda>(q, nd). \<not> (has_sep q \<and> rsplit_head CHR ''/'' q \<in> fst ` set nodes)) items"
proof (induction items arbitrary: rs kids)
  case Nil
  show ?case by simp
next
  case (Cons it items)
  obtain q nd where it: "it = (q, nd)" by (cases it)
  show ?case
    by (simp add: it link_step_eq Cons.IH)
qed


lemma link_nodes_kids:
  "snd (link_nodes nodes) p =
     filter (\<lambda>(q, nd). has_sep q \<and> rsplit_head CHR ''/'' q = p \<and> p \<in> fst ` set nodes) nodes"
  by (simp add: link_nodes_def link_fold_kids)

lemma link_nodes_roots:
  "fst (link_nodes nodes) =
     filter (\<lambda>(q, nd). \<not> (has_sep q \<and> rsplit_head CHR ''/'' q \<in> fst ` set nodes)) nodes"
  by (simp add: link_nodes_def link_fold_roots)

lemma longer_keys_decrease:
  fixes nodes :: "(string \<times> 'v) list"
  assumes "(q, nd) \<in> set nodes" and "length p < length q"
  shows "length (filter (\<lambda>(k, d). length q < length k) nodes)
       < length (filter (\<lambda>(k, d). length p < length k) nodes)"
proof -
  let ?P = "\<lambda>(k :: string, d :: 'v). length p < length k"
    and ?Q = "\<lambda>(k :: string, d :: 'v). length q < length k"
  have "filter ?Q nodes = filter ?Q (filter ?P nodes)"
    using assms(2) by (auto intro!: filter_cong)
  moreover have "(q, nd) \<in> set (filter ?P nodes)" "\<not> ?Q (q, nd)"
    using assms by auto
  ultimately show ?thesis
    by (metis (no_types, lifting) length_filter_less)
qed

function node_of :: "(string \<times> node_fields) list \<Rightarrow> string \<times> node_fields \<Rightarrow> node" where
  "node_of nodes (path, nd) = Node nd (map (node_of nodes) (snd (link_nodes nodes) path))"
  by pat_completeness auto
termination
proof (relation "measure (\<lambda>(nodes, (p, nd)). length (filter (\<lambda>(k, d). length p < length k) nodes))")
  show "wf (measure (\<lambda>(nodes, (p, nd)). length (filter (\<lambda>(k, d). length p < length k) nodes)))"
    by simp
next
  fix nodes :: "(string \<times> node_fields) list" and path :: string and nd :: node_fields
    and x :: "string \<times> node_fields"
  assume "x \<in> set (snd (link_nodes nodes) path)"
  then obtain q d where x: "x = (q, d)" and mem: "(q, d) \<in> set nodes"
    and sep: "has_sep q" and par: "rsplit_head CHR ''/'' q = path"
    by (auto simp: link_nodes_kids)
  from sep par have "length path < length q"
    using length_rsplit_head by blast
  with mem show "((nodes, x), (nodes, (path, nd))) \<in>
      measure (\<lambda>(nodes, (p, nd)). length (filter (\<lambda>(k, d). length p < length k) nodes))"
    by (simp add: x longer_keys_decrease)
qed

definition build_tree :: "entry list \<Rightarrow> node list \<times> (string \<times> node_fields) list" where
  "build_tree objects =
     (let nodes = collect_nodes objects;
          roots = fst (link_nodes nodes)
      in (map (node_of nodes) roots, nodes))"

fun count_subtree :: "node \<Rightarrow> int" where
  "count_subtree (Node nd cs) = 1 + sum_list (map count_subtree cs)"


definition is_root :: "(string \<times> 'v) list \<Rightarrow> string \<times> 'v \<Rightarrow> bool" where
  "is_root nodes x = (\<not> (has_sep (fst x) \<and> rsplit_head CHR ''/'' (fst x) \<in> fst ` set nodes))"

definition is_child :: "string \<Rightarrow> string \<times> 'v \<Rightarrow> bool" where
  "is_child p x = (has_sep (fst x) \<and> rsplit_head CHR ''/'' (fst x) = p)"

lemma roots_filter: "fst (link_nodes nodes) = filter (is_root nodes) nodes"
  by (force simp: link_nodes_roots is_root_def intro!: filter_cong)

lemma kids_filter:
  "snd (link_nodes nodes) p = (if p \<in> fst ` set nodes then filter (is_child p) nodes else [])"
  by (auto simp: link_nodes_kids is_child_def intro!: filter_cong)

lemma count_node_of:
  "count_subtree (node_of nodes (p, nd)) =
     1 + sum_list (map (\<lambda>c. count_subtree (node_of nodes c)) (snd (link_nodes nodes) p))"
  by (simp add: comp_def)

lemma shortest_key_is_root:
  assumes "x \<in> set nodes" and "\<forall>y \<in> set nodes. length (fst x) \<le> length (fst y)"
  shows "is_root nodes x"
proof -
  have "False" if sep: "has_sep (fst x)" and mem: "rsplit_head CHR ''/'' (fst x) \<in> fst ` set nodes"
  proof -
    from mem obtain y where y: "y \<in> set nodes" "fst y = rsplit_head CHR ''/'' (fst x)" by force
    from sep have "length (fst y) < length (fst x)" using length_rsplit_head y(2) by simp
    with assms(2) y(1) show False by force
  qed
  then show ?thesis by (auto simp: is_root_def)
qed

lemma exists_root:
  assumes "nodes \<noteq> []"
  shows "\<exists>x \<in> set nodes. is_root nodes x"
proof -
  let ?x = "arg_min_list (\<lambda>y. length (fst y)) nodes"
  have "?x \<in> set nodes" using assms by (rule arg_min_list_in)
  moreover have "\<forall>y \<in> set nodes. length (fst ?x) \<le> length (fst y)"
  proof
    fix y assume "y \<in> set nodes"
    then have "Min ((\<lambda>y. length (fst y)) ` set nodes) \<le> length (fst y)"
      by (intro Min_le) auto
    then show "length (fst ?x) \<le> length (fst y)"
      using f_arg_min_list_f [OF assms, of "\<lambda>y. length (fst y)"] by simp
  qed
  ultimately show ?thesis using shortest_key_is_root by blast
qed


lemma kids_remove_root:
  assumes dist: "distinct (map fst nodes)" and r: "r \<in> set nodes" "is_root nodes r"
    and p: "p \<in> fst ` set (remove1 r nodes)"
  shows "snd (link_nodes (remove1 r nodes)) p = snd (link_nodes nodes) p"
proof -
  have "p \<in> fst ` set nodes"
    using p set_remove1_subset [of r nodes] by auto
  moreover have "\<not> is_child p r"
    using r(2) \<open>p \<in> fst ` set nodes\<close> by (auto simp: is_root_def is_child_def)
  then have "filter (is_child p) (remove1 r nodes) = filter (is_child p) nodes"
    by (simp add: filter_remove1 remove1_idem)
  ultimately show ?thesis using p by (simp add: kids_filter)
qed

lemma node_of_remove_root:
  assumes dist: "distinct (map fst nodes)" and r: "r \<in> set nodes" "is_root nodes r"
  shows "x \<in> set (remove1 r nodes) \<Longrightarrow> node_of (remove1 r nodes) x = node_of nodes x"
proof (induction "remove1 r nodes" x rule: node_of.induct)
  case (1 path nd)
  have p: "path \<in> fst ` set (remove1 r nodes)" using "1.prems" by force
  have kids: "snd (link_nodes (remove1 r nodes)) path = snd (link_nodes nodes) path"
    using kids_remove_root [OF dist r p] .
  have "node_of (remove1 r nodes) c = node_of nodes c"
    if "c \<in> set (snd (link_nodes (remove1 r nodes)) path)" for c
  proof -
    have "c \<in> set (remove1 r nodes)"
      using that p by (simp add: kids_filter)
    then show ?thesis using "1.hyps" that by blast
  qed
  then have "map (node_of (remove1 r nodes)) (snd (link_nodes (remove1 r nodes)) path)
           = map (node_of nodes) (snd (link_nodes nodes) path)"
    unfolding kids [symmetric] by (intro map_cong) auto
  then show ?case by simp
qed


lemma keys_remove1:
  assumes dist: "distinct (map fst nodes)" and r: "r \<in> set nodes"
  shows "fst ` set (remove1 r nodes) = fst ` set nodes - {fst r}"
proof -
  from dist have d: "distinct nodes" and inj: "inj_on fst (set nodes)"
    by (simp_all add: distinct_map)
  have "set (remove1 r nodes) = set nodes - {r}"
    using d by simp
  moreover have "fst ` (set nodes - {r}) = fst ` set nodes - {fst r}"
    using inj r by (auto dest: inj_onD)
  ultimately show ?thesis by simp
qed

lemma is_root_remove_root:
  assumes dist: "distinct (map fst nodes)" and r: "r \<in> set nodes"
  shows "is_root (remove1 r nodes) x \<longleftrightarrow> is_root nodes x \<or> is_child (fst r) x"
  by (auto simp: is_root_def is_child_def keys_remove1 [OF dist r])

lemma sum_root_sizes:
  "distinct (map fst nodes) \<Longrightarrow>
     sum_list (map (\<lambda>x. count_subtree (node_of nodes x)) (fst (link_nodes nodes))) = int (length nodes)"
proof (induction "length nodes" arbitrary: nodes)
  case 0
  then show ?case by (simp add: roots_filter)
next
  case (Suc n)
  from Suc.hyps(2) have "nodes \<noteq> []" by auto
  then obtain r where r: "r \<in> set nodes" "is_root nodes r"
    using exists_root by blast
  let ?ns = "remove1 r nodes"
  let ?f = "\<lambda>x. count_subtree (node_of nodes x)"
  let ?g = "\<lambda>x. count_subtree (node_of ?ns x)"
  let ?k = "fst r"
  have dist: "distinct (map fst nodes)" by fact
  have len: "n = length ?ns"
    using Suc.hyps(2) r(1) by (simp add: length_remove1)
  have dist': "distinct (map fst ?ns)"
  proof -
    from dist have "distinct nodes" "inj_on fst (set nodes)" by (simp_all add: distinct_map)
    then have "distinct ?ns" "inj_on fst (set ?ns)"
      using set_remove1_subset [of r nodes] by (auto intro: inj_on_subset)
    then show ?thesis by (simp add: distinct_map)
  qed
  have IH: "sum_list (map ?g (fst (link_nodes ?ns))) = int n"
    using Suc.hyps(1) [OF len dist'] len by simp
  have k_mem: "?k \<in> fst ` set nodes" using r(1) by auto
  have not_self: "\<not> is_child ?k r"
    using length_rsplit_head [of ?k] by (auto simp: is_child_def)
  have roots_split: "sum_list (map ?f (fst (link_nodes nodes)))
      = ?f r + sum_list (map (\<lambda>x. if is_root nodes x then ?f x else 0) ?ns)"
    using r by (simp add: roots_filter sum_list_map_filter'
        sum_list_map_remove1 [OF r(1), of "\<lambda>x. if is_root nodes x then ?f x else 0"])
  have "?f r = 1 + sum_list (map ?f (snd (link_nodes nodes) ?k))"
    using count_node_of [of nodes ?k "snd r"] by simp
  also have "\<dots> = 1 + sum_list (map (\<lambda>x. if is_child ?k x then ?f x else 0) nodes)"
    using k_mem by (simp add: kids_filter sum_list_map_filter')
  also have "\<dots> = 1 + sum_list (map (\<lambda>x. if is_child ?k x then ?f x else 0) ?ns)"
    using not_self
    by (simp add: sum_list_map_remove1 [OF r(1), of "\<lambda>x. if is_child ?k x then ?f x else 0"])
  finally have root_size: "?f r = 1 + sum_list (map (\<lambda>x. if is_child ?k x then ?f x else 0) ?ns)" .
  have pointwise: "(if is_child ?k x then ?f x else 0) + (if is_root nodes x then ?f x else 0)
      = (if is_root ?ns x then ?g x else 0)" if "x \<in> set ?ns" for x
  proof -
    have "?g x = ?f x"
      using node_of_remove_root [OF dist r that] by simp
    moreover have "\<not> (is_child ?k x \<and> is_root nodes x)"
      using k_mem by (auto simp: is_child_def is_root_def)
    ultimately show ?thesis
      by (auto simp: is_root_remove_root [OF dist r(1)])
  qed
  have "sum_list (map ?f (fst (link_nodes nodes)))
      = 1 + (sum_list (map (\<lambda>x. if is_child ?k x then ?f x else 0) ?ns)
           + sum_list (map (\<lambda>x. if is_root nodes x then ?f x else 0) ?ns))"
    using roots_split root_size by simp
  also have "\<dots> = 1 + sum_list (map (\<lambda>x. (if is_child ?k x then ?f x else 0)
                                      + (if is_root nodes x then ?f x else 0)) ?ns)"
    by (simp add: sum_list_addf)
  also have "\<dots> = 1 + sum_list (map (\<lambda>x. if is_root ?ns x then ?g x else 0) ?ns)"
    using pointwise by (simp cong: map_cong)
  also have "\<dots> = 1 + sum_list (map ?g (fst (link_nodes ?ns)))"
    by (simp add: roots_filter sum_list_map_filter')
  also have "\<dots> = int (length nodes)"
    using IH Suc.hyps(2) by simp
  finally show ?case .
qed


definition has_path :: "entry \<Rightarrow> bool" where
  "has_path e = truthy (hierarchyPath (obj_of e))"

definition record_paths :: "entry list \<Rightarrow> string list" where
  "record_paths objects = map (\<lambda>e. the (hierarchyPath (obj_of e))) (filter has_path objects)"

lemma keys_dict_set:
  "map fst (dict_set d k v) = (if k \<in> set (map fst d) then map fst d else map fst d @ [k])"
  by (induction d) (force split: if_splits)+

lemma set_dict_set:
  "(k', v') \<in> set (dict_set d k v) \<Longrightarrow> (k', v') = (k, v) \<or> (k', v') \<in> set d"
  by (induction d) (auto split: if_splits)

lemma collect_step_keys:
  "map fst (collect_step nodes e) =
     (if has_path e \<and> the (hierarchyPath (obj_of e)) \<notin> set (map fst nodes)
      then map fst nodes @ [the (hierarchyPath (obj_of e))] else map fst nodes)"
  by (simp add: collect_step_def Let_def has_path_def keys_dict_set)

lemma collect_fold_keys:
  "distinct (map fst nodes) \<Longrightarrow>
     distinct (map fst (foldl collect_step nodes objects))
     \<and> set (map fst (foldl collect_step nodes objects)) = set (map fst nodes) \<union> set (record_paths objects)"
proof (induction objects arbitrary: nodes)
  case Nil
  then show ?case by (simp add: record_paths_def)
next
  case (Cons e objects)
  have "distinct (map fst (collect_step nodes e))"
    using Cons.prems by (simp add: collect_step_keys)
  from Cons.IH [OF this] show ?case
    by (auto simp: collect_step_keys record_paths_def)
qed

lemma collect_nodes_distinct: "distinct (map fst (collect_nodes objects))"
  using collect_fold_keys [of "[]" objects] by (simp add: collect_nodes_def)

lemma collect_nodes_keys: "set (map fst (collect_nodes objects)) = set (record_paths objects)"
  using collect_fold_keys [of "[]" objects] by (simp add: collect_nodes_def)

lemma collect_nodes_length:
  assumes "distinct (record_paths objects)"
  shows "length (collect_nodes objects) = length (filter has_path objects)"
proof -
  have "length (collect_nodes objects) = card (set (map fst (collect_nodes objects)))"
    using collect_nodes_distinct [of objects] distinct_card [of "map fst (collect_nodes objects)"]
    by simp
  also have "\<dots> = card (set (record_paths objects))"
    by (simp only: collect_nodes_keys)
  also have "\<dots> = length (record_paths objects)"
    using assms by (rule distinct_card)
  finally show ?thesis by (simp add: record_paths_def)
qed

lemma collect_fold_path:
  "\<forall>(k, nd) \<in> set nodes. hierarchyPath (n_object nd) = Some k \<Longrightarrow>
   \<forall>(k, nd) \<in> set (foldl collect_step nodes objects). hierarchyPath (n_object nd) = Some k"
proof (induction objects arbitrary: nodes)
  case Nil
  then show ?case by simp
next
  case (Cons e objects)
  have "\<forall>(k, nd) \<in> set (collect_step nodes e). hierarchyPath (n_object nd) = Some k"
    using Cons.prems
    by (auto simp: collect_step_def Let_def truthy_def new_node_def split: option.splits
        dest!: set_dict_set)
  from Cons.IH [OF this] show ?case by simp
qed

lemma collect_nodes_path:
  "(k, nd) \<in> set (collect_nodes objects) \<Longrightarrow> hierarchyPath (n_object nd) = Some k"
  using collect_fold_path [of "[]" objects] by (auto simp: collect_nodes_def)

lemma fields_node_of: "nfields (node_of nodes (p, nd)) = nd"
  by simp

lemma build_tree_sizes_sum:
  "sum_list (map count_subtree (fst (build_tree objects))) = int (length (collect_nodes objects))"
  using sum_root_sizes [OF collect_nodes_distinct, of objects]
  by (simp add: build_tree_def Let_def comp_def)

text \<open>
  Claim C6: when the non-empty paths of the records are pairwise different, the subtree sizes
  of the roots built by the tree builder add up to the number of records with a non-empty path.
\<close>

theorem root_sizes_sum_to_record_count:
  assumes "distinct (record_paths objects)"
  shows "sum_list (map count_subtree (fst (build_tree objects))) = int (length (filter has_path objects))"
  using build_tree_sizes_sum [of objects] collect_nodes_length [OF assms]
  by simp


definition record_at :: "string \<Rightarrow> string \<Rightarrow> entry" where
  "record_at path gid =
     \<lparr> object = Some \<lparr> hierarchyPath = Some path, globalId = Some gid, prefabPath = None, name = None \<rparr>,
       activeSelf = None, activeInHierarchy = None, tag = None, layer = None, isStatic = None,
       componentTypeNames = None, transform = None \<rparr>"

definition node_path :: "node \<Rightarrow> string option" where
  "node_path n = hierarchyPath (n_object (nfields n))"

definition four_records :: "entry list" where
  "four_records = [record_at ''A'' ''a'', record_at ''A/B'' ''ab'', record_at ''A/B/C'' ''abc'', record_at ''D'' ''d'']"


lemma mem_record_paths:
  assumes "e \<in> set objects" and "hierarchyPath (obj_of e) = Some p" and "p \<noteq> []"
  shows "p \<in> set (record_paths objects)"
proof -
  have "has_path e" using assms(2,3) by (simp add: has_path_def truthy_def)
  with assms(1,2) show ?thesis by (force simp: record_paths_def)
qed

theorem orphan_becomes_root:
  "(e \<in> set objects \<and> hierarchyPath (obj_of e) = Some p \<and> has_sep p
      \<and> rsplit_head CHR ''/'' p \<notin> set (record_paths objects)
     \<longrightarrow> (\<exists>r \<in> set (fst (build_tree objects)). node_path r = Some p))
   \<and> fst (build_tree [record_at ''X/Y'' ''xy'']) = [Node (new_node (record_at ''X/Y'' ''xy'')) []]"
proof (intro conjI impI)
  assume a: "e \<in> set objects \<and> hierarchyPath (obj_of e) = Some p \<and> has_sep p
      \<and> rsplit_head CHR ''/'' p \<notin> set (record_paths objects)"
  let ?nodes = "collect_nodes objects"
  from a have "p \<noteq> []" by (auto simp: has_sep_def)
  with a have "p \<in> set (record_paths objects)"
    using mem_record_paths by blast
  then have "p \<in> set (map fst ?nodes)"
    by (simp only: collect_nodes_keys)
  then obtain nd where nd: "(p, nd) \<in> set ?nodes" by auto
  have "is_root ?nodes (p, nd)"
    using a collect_nodes_keys [of objects] by (simp add: is_root_def)
  with nd have "(p, nd) \<in> set (fst (link_nodes ?nodes))"
    by (simp add: roots_filter)
  then have "node_of ?nodes (p, nd) \<in> set (fst (build_tree objects))"
    by (simp add: build_tree_def Let_def del: node_of.simps)
  moreover have "node_path (node_of ?nodes (p, nd)) = Some p"
    using collect_nodes_path [OF nd] by (simp add: node_path_def)
  ultimately show "\<exists>r \<in> set (fst (build_tree objects)). node_path r = Some p" by blast
next
  show "fst (build_tree [record_at ''X/Y'' ''xy'']) = [Node (new_node (record_at ''X/Y'' ''xy'')) []]"
    by code_simp
qed

theorem orphan_becomes_root_witness:
  "record_at ''X/Y'' ''xy'' \<in> set [record_at ''X/Y'' ''xy'']
   \<and> hierarchyPath (obj_of (record_at ''X/Y'' ''xy'')) = Some ''X/Y''
   \<and> has_sep ''X/Y''
   \<and> rsplit_head CHR ''/'' ''X/Y'' \<notin> set (record_paths [record_at ''X/Y'' ''xy''])
   \<and> (\<exists>r \<in> set (fst (build_tree [record_at ''X/Y'' ''xy''])). node_path r = Some ''X/Y'')
   \<and> map node_path (fst (build_tree [record_at ''X/Y'' ''xy''])) = [Some ''X/Y'']"
proof -
  have h: "record_at ''X/Y'' ''xy'' \<in> set [record_at ''X/Y'' ''xy'']
      \<and> hierarchyPath (obj_of (record_at ''X/Y'' ''xy'')) = Some ''X/Y''
      \<and> has_sep ''X/Y''
      \<and> rsplit_head CHR ''/'' ''X/Y'' \<notin> set (record_paths [record_at ''X/Y'' ''xy''])"
    by (simp add: record_at_def obj_of_def has_sep_def rsplit_head_def record_paths_def
        has_path_def truthy_def)
  from orphan_becomes_root [of "record_at ''X/Y'' ''xy''" "[record_at ''X/Y'' ''xy'']" "''X/Y''"] h
  have "(\<exists>r \<in> set (fst (build_tree [record_at ''X/Y'' ''xy''])). node_path r = Some ''X/Y'')"
    and "fst (build_tree [record_at ''X/Y'' ''xy'']) = [Node (new_node (record_at ''X/Y'' ''xy'')) []]"
    by blast+
  then show ?thesis using h
    by (simp add: node_path_def new_node_def record_at_def obj_of_def)
qed

theorem root_sizes_sum_witness:
  "distinct (record_paths four_records)
   \<and> sum_list (map count_subtree (fst (build_tree four_records))) = 4
   \<and> length (filter has_path four_records) = 4"
proof -
  have d: "distinct (record_paths four_records)"
    by (simp add: four_records_def record_paths_def has_path_def truthy_def record_at_def obj_of_def)
  have l: "length (filter has_path four_records) = 4"
    by (simp add: four_records_def has_path_def truthy_def record_at_def obj_of_def)
  from root_sizes_sum_to_record_count [OF d] l d show ?thesis by simp
qed

section \<open>Relationship deriver\<close>

text \<open>
  \<^verbatim>\<open>_build_hierarchy_rows(objects, condition)\<close>: the first loop fills \<^verbatim>\<open>path_to_ref\<close>
  (a later record with the same path replaces an earlier one), the second loop emits one row per
  record whose parent path is a key of \<^verbatim>\<open>path_to_ref\<close>, skipping keys already in
  \<^verbatim>\<open>seen\<close>. A reference stored in \<^verbatim>\<open>path_to_ref\<close> has a non-empty path, so
  \<^verbatim>\<open>not parent\<close> holds for a missing key only.
\<close>

record row =
  subject :: obj_ref
  predicate :: string
  obj :: obj_ref
  confidence :: real
  evidence :: "string list"
  subsystem :: string
  condition :: string

definition path_to_ref :: "entry list \<Rightarrow> (string \<rightharpoonup> obj_ref)" where
  "path_to_ref objects =
     foldl (\<lambda>refs e. let obj_ref = obj_of e; path = hierarchyPath obj_ref
                      in if truthy path then refs(the path \<mapsto> obj_ref) else refs)
       Map.empty objects"

definition rows_step :: "(string \<rightharpoonup> obj_ref) \<Rightarrow> string \<Rightarrow> row list \<times> string set \<Rightarrow> entry
    \<Rightarrow> row list \<times> string set" where
  "rows_step refs cond st e =
     (case st of (rows, seen) \<Rightarrow>
       (let child = obj_of e; child_path = hierarchyPath child; child_id = globalId child
        in if \<not> truthy child_path \<or> \<not> has_sep (the child_path) \<or> \<not> truthy child_id then (rows, seen)
           else
             (let parent_path = rsplit_head CHR ''/'' (the child_path)
              in case refs parent_path of
                   None \<Rightarrow> (rows, seen)
                 | Some parent \<Rightarrow>
                     if \<not> truthy (globalId parent) then (rows, seen)
                     else
                       (let key = the (globalId parent) @ ''|part_of|'' @ the child_id
                        in if key \<in> seen then (rows, seen)
                           else (rows @ [\<lparr> subject = parent, predicate = ''part_of'', obj = child,
                                           confidence = 1, evidence = [], subsystem = ''Scene'',
                                           condition = cond \<rparr>],
                                 insert key seen)))))"

definition build_hierarchy_rows :: "entry list \<Rightarrow> string \<Rightarrow> row list" where
  "build_hierarchy_rows objects cond =
     fst (foldl (rows_step (path_to_ref objects) cond) ([], {}) objects)"

definition edge_of :: "row \<Rightarrow> string option \<times> string \<times> string option" where
  "edge_of r = (globalId (subject r), predicate r, globalId (obj r))"

definition edge_justified :: "(string \<rightharpoonup> obj_ref) \<Rightarrow> entry list \<Rightarrow> row \<Rightarrow> bool" where
  "edge_justified refs objects r =
     (truthy (globalId (obj r)) \<and> truthy (globalId (subject r)) \<and> predicate r = ''part_of''
      \<and> list_ex (\<lambda>e. obj r = obj_of e) objects
      \<and> truthy (hierarchyPath (obj r)) \<and> has_sep (the (hierarchyPath (obj r)))
      \<and> refs (rsplit_head CHR ''/'' (the (hierarchyPath (obj r)))) = Some (subject r))"

definition edge_from_records :: "entry list \<Rightarrow> row \<Rightarrow> bool" where
  "edge_from_records objects r =
     (truthy (globalId (obj r)) \<and> truthy (globalId (subject r)) \<and> predicate r = ''part_of''
      \<and> list_ex (\<lambda>e. obj r = obj_of e) objects
      \<and> list_ex (\<lambda>e. subject r = obj_of e) objects
      \<and> truthy (hierarchyPath (obj r)) \<and> has_sep (the (hierarchyPath (obj r)))
      \<and> hierarchyPath (subject r) = Some (rsplit_head CHR ''/'' (the (hierarchyPath (obj r)))))"

lemma rows_step_justified:
  assumes "\<forall>r \<in> set rows. edge_justified refs objects r" and "e \<in> set objects"
  shows "\<forall>r \<in> set (fst (rows_step refs cond (rows, seen) e)). edge_justified refs objects r"
  using assms
  by (auto simp: rows_step_def Let_def edge_justified_def list_ex_iff split: option.splits)

lemma rows_fold_justified:
  assumes "\<forall>r \<in> set rows. edge_justified refs objects r" and "set es \<subseteq> set objects"
  shows "\<forall>r \<in> set (fst (foldl (rows_step refs cond) (rows, seen) es)). edge_justified refs objects r"
  using assms
proof (induction es arbitrary: rows seen)
  case Nil
  then show ?case by simp
next
  case (Cons e es)
  obtain rows' seen' where st: "rows_step refs cond (rows, seen) e = (rows', seen')"
    by (cases "rows_step refs cond (rows, seen) e")
  have "\<forall>r \<in> set rows'. edge_justified refs objects r"
    using rows_step_justified [OF Cons.prems(1), of e cond seen] Cons.prems(2) st by simp
  from Cons.IH [OF this, of seen'] Cons.prems(2) show ?case by (simp add: st)
qed

lemma path_to_ref_fold:
  assumes "\<forall>p o'. refs p = Some o' \<longrightarrow> hierarchyPath o' = Some p \<and> list_ex (\<lambda>e. o' = obj_of e) objects"
    and "set es \<subseteq> set objects"
    and "foldl (\<lambda>refs e. let obj_ref = obj_of e; path = hierarchyPath obj_ref
                      in if truthy path then refs(the path \<mapsto> obj_ref) else refs) refs es p = Some o'"
  shows "hierarchyPath o' = Some p \<and> list_ex (\<lambda>e. o' = obj_of e) objects"
  using assms
proof (induction es arbitrary: refs)
  case Nil
  then show ?case by simp
next
  case (Cons e es)
  let ?refs = "(let obj_ref = obj_of e; path = hierarchyPath obj_ref
                in if truthy path then refs(the path \<mapsto> obj_ref) else refs)"
  have "\<forall>p o'. ?refs p = Some o' \<longrightarrow> hierarchyPath o' = Some p \<and> list_ex (\<lambda>e. o' = obj_of e) objects"
    using Cons.prems(1,2)
    by (auto simp: Let_def truthy_def list_ex_iff split: option.splits if_splits)
  from Cons.IH [OF this] Cons.prems(2,3) show ?case by simp
qed

lemma path_to_ref_Some:
  "path_to_ref objects p = Some o' \<Longrightarrow> hierarchyPath o' = Some p \<and> list_ex (\<lambda>e. o' = obj_of e) objects"
  unfolding path_to_ref_def
  by (rule path_to_ref_fold [of Map.empty objects objects p o']) simp_all

lemma rows_from_records:
  assumes "r \<in> set (build_hierarchy_rows objects cond)"
  shows "edge_from_records objects r"
proof -
  have "edge_justified (path_to_ref objects) objects r"
    using rows_fold_justified [of "[]" "path_to_ref objects" objects objects cond "{}"] assms
    by (simp add: build_hierarchy_rows_def)
  then show ?thesis
    using path_to_ref_Some [of objects "rsplit_head CHR ''/'' (the (hierarchyPath (obj r)))" "subject r"]
    by (simp add: edge_justified_def edge_from_records_def)
qed

text \<open>
  Claim C7: on the records with paths \<open>A\<close>, \<open>A/B\<close>, \<open>A/B/C\<close>, \<open>D\<close> and identities
  \<open>a\<close>, \<open>ab\<close>, \<open>abc\<close>, \<open>d\<close> the forest has the two roots \<open>A\<close> and \<open>D\<close>, the subtree of
  \<open>A\<close> has size 3, and the rows are exactly the \<open>part_of\<close> edges \<open>(a, ab)\<close> and
  \<open>(ab, abc)\<close>. In general every emitted row has a child with a non-empty identity, taken
  from a record whose path has a separator, and a subject with a non-empty identity, taken
  from a record at the parent path; so no row is emitted when either is missing.
\<close>

theorem hierarchy_rows_example:
  "map node_path (fst (build_tree four_records)) = [Some ''A'', Some ''D'']
   \<and> map count_subtree (fst (build_tree four_records)) = [3, 1]
   \<and> map edge_of (build_hierarchy_rows four_records cond)
        = [(Some ''a'', ''part_of'', Some ''ab''), (Some ''ab'', ''part_of'', Some ''abc'')]
   \<and> (\<forall>r \<in> set (build_hierarchy_rows objects cond). edge_from_records objects r)"
proof (intro conjI ballI)
  show "map node_path (fst (build_tree four_records)) = [Some ''A'', Some ''D'']"
    by code_simp
  show "map count_subtree (fst (build_tree four_records)) = [3, 1]"
    by code_simp
  show "map edge_of (build_hierarchy_rows four_records cond)
        = [(Some ''a'', ''part_of'', Some ''ab''), (Some ''ab'', ''part_of'', Some ''abc'')]"
    by code_simp
  show "edge_from_records objects r" if "r \<in> set (build_hierarchy_rows objects cond)" for r
    using that by (rule rows_from_records)
qed

theorem hierarchy_rows_example_witness:
  "length (build_hierarchy_rows four_records ''Unity Development'') = 2
   \<and> list_all (edge_from_records four_records) (build_hierarchy_rows four_records ''Unity Development'')"
proof -
  let ?rows = "build_hierarchy_rows four_records ''Unity Development''"
  have e: "map edge_of ?rows
        = [(Some ''a'', ''part_of'', Some ''ab''), (Some ''ab'', ''part_of'', Some ''abc'')]"
    and j: "\<forall>r \<in> set ?rows. edge_from_records four_records r"
    using hierarchy_rows_example [of "''Unity Development''" four_records] by blast+
  have "length (map edge_of ?rows) = 2"
    by (simp only: e) simp
  then have "length ?rows = 2" by simp
  moreover have "list_all (edge_from_records four_records) ?rows"
    using j by (simp only: list_all_iff)
  ultimately show ?thesis by blast
qed

section \<open>Tree sorter\<close>

text \<open>
  \<^verbatim>\<open>_sort_tree(nodes)\<close> exists twice. In \<^verbatim>\<open>orchestrate_mapping.py\<close> it sorts the list
  it is given and then recurses into every node's children (\<open>sort_tree\<close>); in
  \<^verbatim>\<open>scene_outline.py\<close> it sorts, for every node of the list it is given, the node's children
  and recurses into them (\<open>sort_tree_outline\<close>). Both sort by the path string;
  \<^verbatim>\<open>list.sort\<close> is stable, as \<open>sort_key\<close> is. Strings are compared lexicographically by
  character code. The sort key of a node built by the tree builder is its non-empty path.
\<close>


definition sort_path_key :: "node \<Rightarrow> string" where
  "sort_path_key c = or_empty (hierarchyPath (n_object (nfields c)))"

lemma size_list_sort_key: "size_list f (sort_key k xs) = size_list f xs"
proof -
  have "sum_list (map f (sort_key k xs)) = sum_list (map f xs)"
    by (metis mset_map mset_sort sum_mset_sum_list)
  then show ?thesis by (simp add: size_list_conv_sum_list)
qed

lemma size_member_le: "node \<in> set nodes \<Longrightarrow> size node \<le> size_list size nodes"
  by (simp add: size_list_estimation')

function sort_tree :: "node list \<Rightarrow> node list"
  and sort_children :: "node \<Rightarrow> node" where
  "sort_tree nodes = map sort_children (sort_key sort_path_key nodes)"
| "sort_children (Node nd cs) = Node nd (sort_tree cs)"
  by pat_completeness auto
termination
proof (relation "measure (\<lambda>a. case a of Inl nodes \<Rightarrow> 2 * size_list size nodes + 1 | Inr n \<Rightarrow> 2 * size n)")
  show "wf (measure (\<lambda>a. case a of Inl nodes \<Rightarrow> 2 * size_list size nodes + 1 | Inr n \<Rightarrow> 2 * size n))"
    by simp
next
  fix nodes :: "node list" and x :: node
  assume "x \<in> set (sort_key sort_path_key nodes)"
  then have "x \<in> set nodes" by simp
  then have "size x \<le> size_list size nodes"
    by (rule size_member_le)
  then show "(Inr x, Inl nodes) \<in> measure (\<lambda>a. case a of Inl nodes \<Rightarrow> 2 * size_list size nodes + 1 | Inr n \<Rightarrow> 2 * size n)"
    by simp
next
  fix nd :: node_fields and cs :: "node list"
  show "(Inl cs, Inr (Node nd cs)) \<in> measure (\<lambda>a. case a of Inl nodes \<Rightarrow> 2 * size_list size nodes + 1 | Inr n \<Rightarrow> 2 * size n)"
    by simp
qed

function sort_tree_outline :: "node list \<Rightarrow> node list"
  and sort_children_outline :: "node \<Rightarrow> node" where
  "sort_tree_outline nodes = map sort_children_outline nodes"
| "sort_children_outline (Node nd cs) = Node nd (sort_tree_outline (sort_key sort_path_key cs))"
  by pat_completeness auto
termination
proof (relation "measure (\<lambda>a. case a of Inl nodes \<Rightarrow> 2 * size_list size nodes + 1 | Inr n \<Rightarrow> 2 * size n)")
  show "wf (measure (\<lambda>a. case a of Inl nodes \<Rightarrow> 2 * size_list size nodes + 1 | Inr n \<Rightarrow> 2 * size n))"
    by simp
next
  fix nodes :: "node list" and x :: node
  assume "x \<in> set nodes"
  then have "size x \<le> size_list size nodes"
    by (rule size_member_le)
  then show "(Inr x, Inl nodes) \<in> measure (\<lambda>a. case a of Inl nodes \<Rightarrow> 2 * size_list size nodes + 1 | Inr n \<Rightarrow> 2 * size n)"
    by simp
next
  fix nd :: node_fields and cs :: "node list"
  show "(Inl (sort_key sort_path_key cs), Inr (Node nd cs)) \<in> measure (\<lambda>a. case a of Inl nodes \<Rightarrow> 2 * size_list size nodes + 1 | Inr n \<Rightarrow> 2 * size n)"
    by (simp add: size_list_sort_key)
qed


definition two_roots :: "entry list" where
  "two_roots = [record_at ''B'' ''b'', record_at ''A'' ''a'']"

lemma sort_children_agree: "sort_children n = sort_children_outline n"
proof (induction n)
  case (Node nd cs)
  have "map sort_children (sort_key sort_path_key cs) = map sort_children_outline (sort_key sort_path_key cs)"
    using Node.IH by (intro map_cong) auto
  then show ?case by simp
qed

lemma sorters_agree_below_roots:
  "sort_tree nodes = sort_tree_outline (sort_key sort_path_key nodes)"
  by (simp add: sort_children_agree cong: map_cong)

text \<open>
  Claim C4 on the forest built from the records with paths \<open>B\<close> and \<open>A\<close>, in that order:
  the sorter of \<^verbatim>\<open>orchestrate_mapping.py\<close> returns the roots as \<open>A, B\<close>; the sorter of
  \<^verbatim>\<open>scene_outline.py\<close> sorts children lists only and leaves the roots as \<open>B, A\<close>.
\<close>

theorem sort_tree_outline_keeps_root_order:
  "map node_path (sort_tree (fst (build_tree two_roots))) = [Some ''A'', Some ''B'']
   \<and> map node_path (sort_tree_outline (fst (build_tree two_roots))) = [Some ''B'', Some ''A'']"
proof -
  have roots: "fst (build_tree two_roots)
      = [Node (new_node (record_at ''B'' ''b'')) [], Node (new_node (record_at ''A'' ''a'')) []]"
    by code_simp
  show ?thesis
    by (simp add: roots sort_path_key_def or_empty_def new_node_def record_at_def obj_of_def
        node_path_def)
qed

section \<open>Diagram partitioner\<close>

text \<open>
  \<^verbatim>\<open>_build_diagrams(objects, roots, diagram_count)\<close>. The first loop collects the non-empty
  root paths and their subtree sizes; the greedy loop re-sorts the diagrams by
  \<^verbatim>\<open>(nodeCount, title)\<close> before every assignment and gives the root to the first one
  (\<^verbatim>\<open>diagrams[0]\<close> raises \<^verbatim>\<open>IndexError\<close> on an empty list); the last loop appends
  the identity of every record with a non-empty identity to the first diagram one of whose
  root paths equals the record's path or is a prefix of it followed by the separator.
\<close>


datatype py_error = IndexError

definition digit_char :: "nat \<Rightarrow> char" where
  "digit_char d = ''0123456789'' ! d"

fun str_nat :: "nat \<Rightarrow> string" where
  "str_nat n = (if n < 10 then [digit_char n] else str_nat (n div 10) @ [digit_char (n mod 10)])"

declare str_nat.simps [simp del]

record diagram =
  title :: string
  rootPaths :: "string list"
  objectIds :: "string list"
  nodeCount :: int

definition root_step :: "string list \<times> (string \<rightharpoonup> int) \<Rightarrow> node \<Rightarrow> string list \<times> (string \<rightharpoonup> int)" where
  "root_step st root_node =
     (case st of (root_paths, root_sizes) \<Rightarrow>
       (let obj = n_object (nfields root_node); path = hierarchyPath obj
        in if \<not> truthy path then (root_paths, root_sizes)
           else (root_paths @ [the path], root_sizes(the path \<mapsto> count_subtree root_node))))"

definition sizes_get :: "(string \<rightharpoonup> int) \<Rightarrow> string \<Rightarrow> int" where
  "sizes_get root_sizes p = (case root_sizes p of None \<Rightarrow> 0 | Some v \<Rightarrow> v)"

definition empty_diagrams :: "int \<Rightarrow> diagram list" where
  "empty_diagrams diagram_count =
     map (\<lambda>i. \<lparr> title = ''Diagram '' @ str_nat (i + 1), rootPaths = [], objectIds = [], nodeCount = 0 \<rparr>)
       [0 ..< nat diagram_count]"

definition diagram_key :: "diagram \<Rightarrow> int \<times> string" where
  "diagram_key d = (nodeCount d, title d)"

fun assign_roots :: "(string \<rightharpoonup> int) \<Rightarrow> diagram list \<Rightarrow> string list \<Rightarrow> py_error + diagram list" where
  "assign_roots root_sizes diagrams [] = Inr diagrams"
| "assign_roots root_sizes diagrams (root_path # rest) =
     (case sort_key diagram_key diagrams of
        [] \<Rightarrow> Inl IndexError
      | target # others \<Rightarrow>
          assign_roots root_sizes
            (target \<lparr> rootPaths := rootPaths target @ [root_path],
                      nodeCount := nodeCount target + sizes_get root_sizes root_path \<rparr> # others)
            rest)"

definition under_root :: "string \<Rightarrow> string \<Rightarrow> bool" where
  "under_root path root_path = (path = root_path \<or> prefix (root_path @ ''/'') path)"

fun add_member :: "string \<Rightarrow> string \<Rightarrow> diagram list \<Rightarrow> diagram list" where
  "add_member path gid [] = []"
| "add_member path gid (d # ds) =
     (if list_ex (under_root path) (rootPaths d)
      then d \<lparr> objectIds := objectIds d @ [gid] \<rparr> # ds
      else d # add_member path gid ds)"

definition member_step :: "diagram list \<Rightarrow> entry \<Rightarrow> diagram list" where
  "member_step diagrams e =
     (let obj = obj_of e; path = or_empty (hierarchyPath obj); gid = globalId obj
      in if \<not> truthy gid then diagrams else add_member path (the gid) diagrams)"

definition build_diagrams :: "entry list \<Rightarrow> node list \<Rightarrow> int \<Rightarrow> py_error + diagram list" where
  "build_diagrams objects roots diagram_count =
     (case foldl root_step ([], Map.empty) roots of (root_paths, root_sizes) \<Rightarrow>
        if root_paths = [] then Inr (empty_diagrams (max 1 diagram_count))
        else
          (let diagram_count = min (max 1 diagram_count) (int (length root_paths));
               diagrams = empty_diagrams diagram_count
           in case assign_roots root_sizes diagrams
                     (sort_key (\<lambda>p. (- sizes_get root_sizes p, p)) root_paths) of
                Inl err \<Rightarrow> Inl err
              | Inr diagrams \<Rightarrow> Inr (foldl member_step diagrams objects)))"

lemma sum_list_sort_key:
  fixes f :: "'a \<Rightarrow> int"
  shows "sum_list (map f (sort_key k xs)) = sum_list (map f xs)"
  by (metis mset_map mset_sort sum_mset_sum_list)

lemma add_member_nodeCount: "map nodeCount (add_member p g ds) = map nodeCount ds"
  by (induction ds) auto

lemma add_member_rootPaths: "map rootPaths (add_member p g ds) = map rootPaths ds"
  by (induction ds) auto

lemma member_step_nodeCount: "map nodeCount (member_step ds e) = map nodeCount ds"
  by (simp add: member_step_def Let_def add_member_nodeCount)

lemma member_step_rootPaths: "map rootPaths (member_step ds e) = map rootPaths ds"
  by (simp add: member_step_def Let_def add_member_rootPaths)

lemma member_fold_nodeCount: "map nodeCount (foldl member_step ds objects) = map nodeCount ds"
  by (induction objects arbitrary: ds) (simp_all add: member_step_nodeCount)

lemma member_fold_rootPaths: "map rootPaths (foldl member_step ds objects) = map rootPaths ds"
  by (induction objects arbitrary: ds) (simp_all add: member_step_rootPaths)

definition roots_nonempty :: "diagram list \<Rightarrow> bool" where
  "roots_nonempty ds = list_all (\<lambda>paths. [] \<notin> set paths) (map rootPaths ds)"

lemma roots_nonempty_sort: "roots_nonempty (sort_key k ds) = roots_nonempty ds"
  by (simp add: roots_nonempty_def list_all_iff)

lemma assign_roots_total:
  assumes "diagrams \<noteq> []"
  shows "\<exists>ds. assign_roots root_sizes diagrams ps = Inr ds
     \<and> sum_list (map nodeCount ds)
         = sum_list (map nodeCount diagrams) + sum_list (map (sizes_get root_sizes) ps)
     \<and> (roots_nonempty diagrams \<and> [] \<notin> set ps \<longrightarrow> roots_nonempty ds)"
  using assms
proof (induction ps arbitrary: diagrams)
  case Nil
  then show ?case by simp
next
  case (Cons p ps)
  have "sort_key diagram_key diagrams \<noteq> []"
    using Cons.prems by (metis length_sort length_0_conv)
  then obtain target others where so: "sort_key diagram_key diagrams = target # others"
    by (cases "sort_key diagram_key diagrams") auto
  let ?t = "target \<lparr> rootPaths := rootPaths target @ [p],
                      nodeCount := nodeCount target + sizes_get root_sizes p \<rparr>"
  have sum_sorted: "sum_list (map nodeCount (target # others)) = sum_list (map nodeCount diagrams)"
    using sum_list_sort_key [of nodeCount diagram_key diagrams] by (simp only: so)
  have ne: "roots_nonempty (target # others) = roots_nonempty diagrams"
    using roots_nonempty_sort [of diagram_key diagrams] by (simp only: so)
  from Cons.IH [of "?t # others"] obtain ds where
    ds: "assign_roots root_sizes (?t # others) ps = Inr ds"
      "sum_list (map nodeCount ds)
         = sum_list (map nodeCount (?t # others)) + sum_list (map (sizes_get root_sizes) ps)"
      "roots_nonempty (?t # others) \<and> [] \<notin> set ps \<longrightarrow> roots_nonempty ds"
    by blast
  have "assign_roots root_sizes diagrams (p # ps) = Inr ds"
    using ds(1) by (simp add: so)
  moreover have "sum_list (map nodeCount ds)
         = sum_list (map nodeCount diagrams) + sum_list (map (sizes_get root_sizes) (p # ps))"
    using ds(2) sum_sorted by simp
  moreover have "roots_nonempty diagrams \<and> [] \<notin> set (p # ps) \<longrightarrow> roots_nonempty ds"
    using ds(3) ne by (auto simp: roots_nonempty_def)
  ultimately show ?case by blast
qed

lemma empty_diagrams_facts:
  "1 \<le> n \<Longrightarrow> empty_diagrams n \<noteq> []"
  "sum_list (map nodeCount (empty_diagrams n)) = 0"
  "roots_nonempty (empty_diagrams n)"
  by (simp_all add: empty_diagrams_def roots_nonempty_def list_all_iff comp_def)


lemma root_step_eq:
  "root_step (ps, sz) r =
     (if truthy (node_path r) then (ps @ [the (node_path r)], sz(the (node_path r) \<mapsto> count_subtree r))
      else (ps, sz))"
  by (simp add: root_step_def node_path_def Let_def)

lemma root_fold_nonempty:
  "[] \<notin> set ps \<Longrightarrow> [] \<notin> set (fst (foldl root_step (ps, sz) rs))"
proof (induction rs arbitrary: ps sz)
  case Nil
  then show ?case by simp
next
  case (Cons r rs)
  show ?case
  proof (cases "truthy (node_path r)")
    case True
    then have "[] \<notin> set (ps @ [the (node_path r)])"
      using Cons.prems by (auto simp: truthy_def split: option.splits)
    from Cons.IH [OF this] True show ?thesis by (simp add: root_step_eq)
  next
    case False
    with Cons.IH [OF Cons.prems] show ?thesis by (simp add: root_step_eq)
  qed
qed

lemma root_fold_sizes:
  assumes "\<forall>r \<in> set rs. truthy (node_path r)" and "distinct (map node_path rs)"
  shows "fst (foldl root_step ([], Map.empty) rs) = map (\<lambda>r. the (node_path r)) rs
       \<and> (\<forall>r \<in> set rs. snd (foldl root_step ([], Map.empty) rs) (the (node_path r))
             = Some (count_subtree r))"
  using assms
proof (induction rs rule: rev_induct)
  case Nil
  then show ?case by simp
next
  case (snoc r rs)
  obtain ps sz where st: "foldl root_step ([], Map.empty) rs = (ps, sz)"
    by (cases "foldl root_step ([], Map.empty) rs")
  from snoc have IH: "ps = map (\<lambda>r. the (node_path r)) rs"
    "\<forall>r' \<in> set rs. sz (the (node_path r')) = Some (count_subtree r')"
    by (simp_all add: st)
  have tr: "truthy (node_path r)" using snoc.prems(1) by simp
  have other: "the (node_path r') \<noteq> the (node_path r)" if "r' \<in> set rs" for r'
  proof -
    have "node_path r \<notin> node_path ` set rs" using snoc.prems(2) by simp
    then have "node_path r' \<noteq> node_path r" using that by (metis imageI)
    moreover have "truthy (node_path r')" using snoc.prems(1) that by simp
    ultimately show ?thesis using tr by (auto simp: truthy_def split: option.splits)
  qed
  show ?case
    using IH tr other by (simp add: st root_step_eq)
qed

lemma diagrams_node_count_sum:
  assumes "\<forall>r \<in> set rs. truthy (node_path r)" and "distinct (map node_path rs)"
  shows "\<exists>ds. build_diagrams objects rs n = Inr ds
     \<and> sum_list (map nodeCount ds) = sum_list (map count_subtree rs)"
proof -
  obtain ps sz where st: "foldl root_step ([], Map.empty) rs = (ps, sz)"
    by (cases "foldl root_step ([], Map.empty) rs")
  from root_fold_sizes [OF assms] have ps: "ps = map (\<lambda>r. the (node_path r)) rs"
    and sz: "\<forall>r \<in> set rs. sz (the (node_path r)) = Some (count_subtree r)"
    by (simp_all add: st)
  have total: "sum_list (map (sizes_get sz) ps) = sum_list (map count_subtree rs)"
    using sz by (simp add: ps comp_def sizes_get_def cong: map_cong)
  show ?thesis
  proof (cases "ps = []")
    case True
    then have "rs = []" using ps by simp
    then show ?thesis
      using True by (simp add: build_diagrams_def st empty_diagrams_facts(2))
  next
    case False
    let ?dc = "min (max 1 n) (int (length ps))"
    let ?sorted = "sort_key (\<lambda>p. (- sizes_get sz p, p)) ps"
    have "1 \<le> ?dc" using False by (cases ps) auto
    then have "empty_diagrams ?dc \<noteq> []" by (rule empty_diagrams_facts(1))
    from assign_roots_total [OF this, of sz ?sorted] obtain ds where
      ds: "assign_roots sz (empty_diagrams ?dc) ?sorted = Inr ds"
        "sum_list (map nodeCount ds)
           = sum_list (map nodeCount (empty_diagrams ?dc)) + sum_list (map (sizes_get sz) ?sorted)"
      by blast
    have "sum_list (map nodeCount ds) = sum_list (map count_subtree rs)"
      using ds(2) total by (simp add: empty_diagrams_facts(2) sum_list_sort_key)
    moreover have "build_diagrams objects rs n = Inr (foldl member_step ds objects)"
      using False ds(1) by (simp add: build_diagrams_def st Let_def)
    moreover have "sum_list (map nodeCount (foldl member_step ds objects)) = sum_list (map nodeCount ds)"
      by (simp only: member_fold_nodeCount)
    ultimately show ?thesis by simp
  qed
qed


lemma record_paths_nonempty: "[] \<notin> set (record_paths objects)"
  by (auto simp: record_paths_def has_path_def truthy_def split: option.splits)

lemma node_path_node_of: "node_path (node_of nodes (k, nd)) = hierarchyPath (n_object nd)"
  by (simp add: node_path_def)

lemma build_tree_root_paths:
  "map node_path (fst (build_tree objects))
     = map (\<lambda>x. Some (fst x)) (filter (is_root (collect_nodes objects)) (collect_nodes objects))"
proof -
  have "node_path (node_of (collect_nodes objects) x) = Some (fst x)"
    if "x \<in> set (collect_nodes objects)" for x
  proof -
    obtain k nd where x: "x = (k, nd)" by (cases x)
    then have "hierarchyPath (n_object nd) = Some k"
      using that collect_nodes_path by simp
    then show ?thesis
      by (simp only: x node_path_node_of fst_conv)
  qed
  then show ?thesis
    by (simp add: build_tree_def Let_def roots_filter comp_def del: node_of.simps cong: map_cong)
qed

lemma build_tree_roots_distinct: "distinct (map node_path (fst (build_tree objects)))"
proof -
  have "distinct (map fst (filter (is_root (collect_nodes objects)) (collect_nodes objects)))"
    using collect_nodes_distinct [of objects] by (rule distinct_map_filter)
  then have "distinct (map (\<lambda>x. Some (fst x))
      (filter (is_root (collect_nodes objects)) (collect_nodes objects)))"
    by (auto simp: distinct_map inj_on_def)
  then show ?thesis by (simp only: build_tree_root_paths)
qed

lemma build_tree_roots_truthy:
  assumes "r \<in> set (fst (build_tree objects))"
  shows "truthy (node_path r)"
proof -
  have "node_path r \<in> set (map node_path (fst (build_tree objects)))" using assms by simp
  then obtain x where x: "x \<in> set (collect_nodes objects)" "node_path r = Some (fst x)"
    by (auto simp: build_tree_root_paths)
  have "fst x \<in> set (map fst (collect_nodes objects))" using x(1) by simp
  then have "fst x \<in> set (record_paths objects)" by (simp only: collect_nodes_keys)
  then have "fst x \<noteq> []" using record_paths_nonempty by metis
  then show ?thesis by (simp add: x(2) truthy_def)
qed

lemma node_path_sort_children: "node_path (sort_children n) = node_path n"
  by (cases n) (simp add: node_path_def)

lemma count_sort_children: "count_subtree (sort_children n) = count_subtree n"
proof (induction n)
  case (Node nd cs)
  have "sum_list (map count_subtree (map sort_children (sort_key sort_path_key cs)))
      = sum_list (map (\<lambda>c. count_subtree (sort_children c)) (sort_key sort_path_key cs))"
    by (simp add: comp_def)
  also have "\<dots> = sum_list (map (\<lambda>c. count_subtree (sort_children c)) cs)"
    by (rule sum_list_sort_key)
  also have "\<dots> = sum_list (map count_subtree cs)"
    using Node.IH by (simp cong: map_cong)
  finally show ?case by simp
qed

lemma sort_tree_paths: "mset (map node_path (sort_tree rs)) = mset (map node_path rs)"
proof -
  have "node_path \<circ> sort_children = node_path"
    by (rule ext) (simp add: node_path_sort_children)
  then have eq: "map node_path (sort_tree rs) = map node_path (sort_key sort_path_key rs)"
    by simp
  show ?thesis unfolding eq by simp
qed

lemma sort_tree_count: "sum_list (map count_subtree (sort_tree rs)) = sum_list (map count_subtree rs)"
proof -
  have "count_subtree \<circ> sort_children = count_subtree"
    by (rule ext) (simp add: count_sort_children)
  then have "sum_list (map count_subtree (sort_tree rs))
      = sum_list (map count_subtree (sort_key sort_path_key rs))"
    by simp
  then show ?thesis by (simp only: sum_list_sort_key)
qed

definition placeable :: "entry \<Rightarrow> bool" where
  "placeable e = (truthy (globalId (obj_of e)) \<and> has_path e)"

definition node_count_total :: "py_error + diagram list \<Rightarrow> int" where
  "node_count_total res = (case res of Inl err \<Rightarrow> 0 | Inr ds \<Rightarrow> sum_list (map nodeCount ds))"

definition anonymous_record :: "string \<Rightarrow> entry" where
  "anonymous_record path =
     \<lparr> object = Some \<lparr> hierarchyPath = Some path, globalId = None, prefabPath = None, name = None \<rparr>,
       activeSelf = None, activeInHierarchy = None, tag = None, layer = None, isStatic = None,
       componentTypeNames = None, transform = None \<rparr>"

definition pathless_record :: "string \<Rightarrow> entry" where
  "pathless_record gid =
     \<lparr> object = Some \<lparr> hierarchyPath = None, globalId = Some gid, prefabPath = None, name = None \<rparr>,
       activeSelf = None, activeInHierarchy = None, tag = None, layer = None, isStatic = None,
       componentTypeNames = None, transform = None \<rparr>"

text \<open>
  Claim C2, as the code has it: when the non-empty paths of the records are pairwise
  different, the node counts of the diagrams add up to the number of records with a
  non-empty path, whether or not those records have an identity.
\<close>

theorem diagram_node_counts_sum:
  assumes "distinct (record_paths objects)"
  shows "\<exists>ds. build_diagrams objects (sort_tree (fst (build_tree objects))) n = Inr ds
     \<and> sum_list (map nodeCount ds) = int (length (filter has_path objects))"
proof -
  let ?rs = "sort_tree (fst (build_tree objects))"
  have "distinct (map node_path ?rs)"
    using build_tree_roots_distinct [of objects] sort_tree_paths [of "fst (build_tree objects)"]
    by (metis mset_eq_imp_distinct_iff)
  moreover have "\<forall>r \<in> set ?rs. truthy (node_path r)"
  proof
    fix r assume "r \<in> set ?rs"
    then have "node_path r \<in> set (map node_path ?rs)" by (simp only: set_map imageI)
    then have "node_path r \<in> set (map node_path (fst (build_tree objects)))"
      using mset_eq_setD [OF sort_tree_paths] by blast
    then show "truthy (node_path r)"
      using build_tree_roots_truthy by auto
  qed
  ultimately obtain ds where ds: "build_diagrams objects ?rs n = Inr ds"
    "sum_list (map nodeCount ds) = sum_list (map count_subtree ?rs)"
    using diagrams_node_count_sum by blast
  have "sum_list (map count_subtree ?rs) = int (length (filter has_path objects))"
    using build_tree_sizes_sum [of objects] collect_nodes_length [OF assms]
    by (simp only: sort_tree_count)
  with ds show ?thesis by simp
qed


theorem diagram_node_counts_sum_witness:
  "distinct (record_paths four_records)
   \<and> node_count_total (build_diagrams four_records (sort_tree (fst (build_tree four_records))) 2) = 4
   \<and> length (filter has_path four_records) = 4"
proof -
  have d: "distinct (record_paths four_records)"
    by (simp add: four_records_def record_paths_def has_path_def truthy_def record_at_def obj_of_def)
  have l: "length (filter has_path four_records) = 4"
    by (simp add: four_records_def has_path_def truthy_def record_at_def obj_of_def)
  from diagram_node_counts_sum [OF d, of 2] obtain ds where
    "build_diagrams four_records (sort_tree (fst (build_tree four_records))) 2 = Inr ds"
    "sum_list (map nodeCount ds) = int (length (filter has_path four_records))"
    by blast
  then have "node_count_total (build_diagrams four_records (sort_tree (fst (build_tree four_records))) 2) = 4"
    using l by (simp add: node_count_total_def)
  with d l show ?thesis by blast
qed

text \<open>
  Claim C2 as the specification words it (counting only records with an identity) fails on
  one record with path \<open>A\<close> and no identity: the node counts add up to 1, and no record
  has both an identity and a path.
\<close>

theorem diagram_node_counts_ignore_identity_counterexample:
  "node_count_total (build_diagrams [anonymous_record ''A'']
       (sort_tree (fst (build_tree [anonymous_record ''A'']))) 1) = 1
   \<and> length (filter placeable [anonymous_record ''A'']) = 0"
proof -
  have "build_diagrams [anonymous_record ''A'']
       (sort_tree (fst (build_tree [anonymous_record ''A'']))) 1
      = Inr [\<lparr> title = ''Diagram 1'', rootPaths = [''A''], objectIds = [], nodeCount = 1 \<rparr>]"
    by code_simp
  moreover have "length (filter placeable [anonymous_record ''A'']) = 0"
    by (simp add: placeable_def anonymous_record_def obj_of_def truthy_def)
  ultimately show ?thesis by (simp add: node_count_total_def)
qed


lemma under_root_empty: "root_path \<noteq> [] \<Longrightarrow> \<not> under_root [] root_path"
  by (auto simp: under_root_def)

lemma add_member_empty_path: "roots_nonempty ds \<Longrightarrow> add_member [] gid ds = ds"
proof (induction ds)
  case Nil
  show ?case by simp
next
  case (Cons d ds)
  from Cons.prems have "[] \<notin> set (rootPaths d)" and rest: "roots_nonempty ds"
    by (simp_all add: roots_nonempty_def)
  then have "\<not> list_ex (under_root []) (rootPaths d)"
    using under_root_empty by (metis list_ex_iff)
  with Cons.IH [OF rest] show ?case by simp
qed

lemma member_step_pathless:
  assumes "\<not> has_path e" and "roots_nonempty ds"
  shows "member_step ds e = ds"
proof -
  have "or_empty (hierarchyPath (obj_of e)) = []"
    using assms(1) by (auto simp: has_path_def truthy_def or_empty_def split: option.splits)
  then show ?thesis
    using add_member_empty_path [OF assms(2)] by (simp add: member_step_def Let_def)
qed

lemma member_fold_roots_nonempty:
  "roots_nonempty (foldl member_step ds objects) = roots_nonempty ds"
  by (simp add: roots_nonempty_def member_fold_rootPaths)

lemma member_fold_pathless:
  assumes "\<not> has_path e" and "roots_nonempty ds"
  shows "foldl member_step ds (xs @ e # ys) = foldl member_step ds (xs @ ys)"
proof -
  have "roots_nonempty (foldl member_step ds xs)"
    using assms(2) by (simp only: member_fold_roots_nonempty)
  then have "member_step (foldl member_step ds xs) e = foldl member_step ds xs"
    using member_step_pathless [OF assms(1)] by blast
  then show ?thesis by simp
qed

text \<open>
  Claim C10: a record without a path (absent or empty) leaves every diagram as it is: for
  every list of roots and every diagram count, partitioning with the record gives the same
  diagrams, member identities included, as partitioning without it.
\<close>

theorem pathless_record_in_no_diagram:
  assumes "\<not> has_path e"
  shows "build_diagrams (xs @ e # ys) roots n = build_diagrams (xs @ ys) roots n"
proof -
  obtain ps sz where st: "foldl root_step ([], Map.empty) roots = (ps, sz)"
    by (cases "foldl root_step ([], Map.empty) roots")
  have ps: "[] \<notin> set ps"
    using root_fold_nonempty [of "[]" Map.empty roots] by (simp add: st)
  show ?thesis
  proof (cases "ps = []")
    case True
    then show ?thesis by (simp add: build_diagrams_def st)
  next
    case False
    let ?dc = "min (max 1 n) (int (length ps))"
    let ?sorted = "sort_key (\<lambda>p. (- sizes_get sz p, p)) ps"
    have "1 \<le> ?dc" using False by (cases ps) auto
    then have "empty_diagrams ?dc \<noteq> []" by (rule empty_diagrams_facts(1))
    from assign_roots_total [OF this, of sz ?sorted] obtain ds where
      ds: "assign_roots sz (empty_diagrams ?dc) ?sorted = Inr ds"
        "roots_nonempty (empty_diagrams ?dc) \<and> [] \<notin> set ?sorted \<longrightarrow> roots_nonempty ds"
      by blast
    have "roots_nonempty ds"
      using ds(2) ps by (simp add: empty_diagrams_facts(3))
    then have "foldl member_step ds (xs @ e # ys) = foldl member_step ds (xs @ ys)"
      using member_fold_pathless [OF assms] by blast
    then show ?thesis
      using False ds(1) by (simp add: build_diagrams_def st Let_def)
  qed
qed

theorem pathless_record_in_no_diagram_witness:
  "\<not> has_path (pathless_record ''x'')
   \<and> build_diagrams ([record_at ''A'' ''a''] @ pathless_record ''x'' # [record_at ''A/B'' ''ab''])
        (fst (build_tree [record_at ''A'' ''a'', pathless_record ''x'', record_at ''A/B'' ''ab''])) 1
      = Inr [\<lparr> title = ''Diagram 1'', rootPaths = [''A''], objectIds = [''a'', ''ab''], nodeCount = 2 \<rparr>]"
proof -
  have h: "\<not> has_path (pathless_record ''x'')"
    by (simp add: has_path_def pathless_record_def obj_of_def truthy_def)
  have "build_diagrams ([record_at ''A'' ''a''] @ [record_at ''A/B'' ''ab''])
        (fst (build_tree [record_at ''A'' ''a'', pathless_record ''x'', record_at ''A/B'' ''ab''])) 1
      = Inr [\<lparr> title = ''Diagram 1'', rootPaths = [''A''], objectIds = [''a'', ''ab''], nodeCount = 2 \<rparr>]"
    by code_simp
  with pathless_record_in_no_diagram [OF h, of "[record_at ''A'' ''a'']" "[record_at ''A/B'' ''ab'']"
      "fst (build_tree [record_at ''A'' ''a'', pathless_record ''x'', record_at ''A/B'' ''ab''])" 1] h
  show ?thesis by simp
qed

end
